theory Spec2Isabelle
  imports Complex_Main "HOL-Library.AList"
begin

section \<open>Text: characters, lines, trimming, substrings\<close>

text \<open>
  The grade calculator works on the text that OCR returns. A text is a \<open>string\<close>, a list
  of characters; a character stands for the code point of the same number, so the model
  covers the texts whose code points are below 256. The classes below are those of
  Python 3 on that range: \<^verbatim>\<open>\d\<close> is the ten decimal digits, \<^verbatim>\<open>\s\<close> and
  \<^verbatim>\<open>str.strip()\<close> share one set of white space, and \<^verbatim>\<open>str.splitlines()\<close>
  has its own set of line boundaries.
\<close>

definition code :: "char \<Rightarrow> nat" where
  "code c = of_char c"

definition is_digit :: "char \<Rightarrow> bool" where
  "is_digit c = (48 \<le> code c \<and> code c \<le> 57)"

definition is_upper :: "char \<Rightarrow> bool" where
  "is_upper c = (65 \<le> code c \<and> code c \<le> 90)"

definition is_lower :: "char \<Rightarrow> bool" where
  "is_lower c = (97 \<le> code c \<and> code c \<le> 122)"

definition is_space :: "char \<Rightarrow> bool" where
  "is_space c = ((9 \<le> code c \<and> code c \<le> 13) \<or> (28 \<le> code c \<and> code c \<le> 32)
                 \<or> code c = 133 \<or> code c = 160)"

definition is_linebreak :: "char \<Rightarrow> bool" where
  "is_linebreak c = ((10 \<le> code c \<and> code c \<le> 13) \<or> (28 \<le> code c \<and> code c \<le> 30)
                     \<or> code c = 133)"

text \<open>\<^verbatim>\<open>text.splitlines()\<close>: a carriage return followed by a line feed is one boundary,
  and a boundary at the very end of the text opens no further line.\<close>

fun splitlines :: "string \<Rightarrow> string list" where
  "splitlines [] = []"
| "splitlines (c # cs) =
     (if is_linebreak c then
        (case cs of
           d # ds \<Rightarrow> if code c = 13 \<and> code d = 10 then [] # splitlines ds else [] # splitlines cs
         | [] \<Rightarrow> [[]])
      else (case splitlines cs of [] \<Rightarrow> [[c]] | l # ls \<Rightarrow> (c # l) # ls))"

text \<open>\<^verbatim>\<open>line.strip()\<close>\<close>

definition strip :: "string \<Rightarrow> string" where
  "strip s = rev (dropWhile is_space (rev (dropWhile is_space s)))"

text \<open>\<^verbatim>\<open>header in line\<close>\<close>

fun contains :: "string \<Rightarrow> string \<Rightarrow> bool" where
  "contains [] h = (h = [])"
| "contains (c # cs) h = (take (length h) (c # cs) = h \<or> contains cs h)"

text \<open>\<^verbatim>\<open>s.replace(old, new)\<close>: the occurrences of \<open>old\<close> are found from the left and do
  not overlap. With an empty \<open>old\<close> Python puts \<open>new\<close> around every character.\<close>

function replace :: "string \<Rightarrow> string \<Rightarrow> string \<Rightarrow> string" where
  "replace s old new =
     (if old = [] then new @ concat (map (\<lambda>c. c # new) s)
      else (case s of
              [] \<Rightarrow> []
            | c # cs \<Rightarrow>
                if take (length old) s = old then new @ replace (drop (length old) s) old new
                else c # replace cs old new))"
  by pat_completeness auto
termination
  by (relation "measure (\<lambda>(s, old, new). length s)") auto

text \<open>\<^verbatim>\<open>float(digits)\<close> on a string of decimal digits. Python's floats are modelled as
  real numbers: the value is the integer the digits write, with no rounding to 53 bits
  and no overflow to infinity.\<close>

definition digit_val :: "char \<Rightarrow> nat" where
  "digit_val c = code c - 48"

definition int_of_digits :: "string \<Rightarrow> nat" where
  "int_of_digits ds = foldl (\<lambda>n c. 10 * n + digit_val c) 0 ds"

definition float :: "string \<Rightarrow> real" where
  "float ds = of_nat (int_of_digits ds)"

section \<open>Regular expressions\<close>

text \<open>
  The fragment of Python's \<^verbatim>\<open>re\<close> that the program uses: literal characters, greedy
  repetition of a character class between a lower and an optional upper bound
  (\<^verbatim>\<open>\d+\<close>, \<^verbatim>\<open>\s*\<close>, \<^verbatim>\<open>[A-Z]{2,}\<close>, \<^verbatim>\<open>\d{3}\<close>), sequence, the greedy option
  \<^verbatim>\<open>(?:...)?\<close>, numbered groups and the anchor \<^verbatim>\<open>^\<close>. The matcher backtracks as
  \<^verbatim>\<open>re\<close> does: a repetition first takes as many characters as it can and gives them
  back one by one while the rest of the pattern fails; an option first tries its body.
  The rest of the pattern is the continuation \<open>k\<close>.
\<close>

datatype regex =
    Lit char
  | Rep "char \<Rightarrow> bool" nat "nat option"
  | Seq regex regex
  | Opt regex
  | Grp nat regex
  | Bol

type_synonym groups = "(nat \<times> string) list"

definition orelse :: "'a option \<Rightarrow> 'a option \<Rightarrow> 'a option" where
  "orelse a b = (case a of Some r \<Rightarrow> Some r | None \<Rightarrow> b)"

fun rep :: "(char \<Rightarrow> bool) \<Rightarrow> nat \<Rightarrow> nat option \<Rightarrow> string \<Rightarrow> (string \<Rightarrow> 'a option) \<Rightarrow> 'a option" where
  "rep P lo hi [] k = (if lo = 0 then k [] else None)"
| "rep P lo hi (c # cs) k =
     (if P c \<and> hi \<noteq> Some 0
      then orelse (rep P (lo - 1) (map_option (\<lambda>h. h - 1) hi) cs k)
                  (if lo = 0 then k (c # cs) else None)
      else if lo = 0 then k (c # cs) else None)"

fun rmatch :: "string \<Rightarrow> regex \<Rightarrow> string \<Rightarrow> groups \<Rightarrow> (string \<Rightarrow> groups \<Rightarrow> 'a option) \<Rightarrow> 'a option" where
  "rmatch w (Lit c) s g k = (case s of [] \<Rightarrow> None | x # xs \<Rightarrow> if x = c then k xs g else None)"
| "rmatch w (Rep P lo hi) s g k = rep P lo hi s (\<lambda>s'. k s' g)"
| "rmatch w (Seq a b) s g k = rmatch w a s g (\<lambda>s' g'. rmatch w b s' g' k)"
| "rmatch w (Opt a) s g k = orelse (rmatch w a s g k) (k s g)"
| "rmatch w (Grp i a) s g k =
     rmatch w a s g (\<lambda>s' g'. k s' ((i, take (length s - length s') s) # g'))"
| "rmatch w Bol s g k = (if length s = length w then k s g else None)"

text \<open>A match object: \<open>group0\<close> is the whole matched text, \<open>group m i\<close> the text of
  group \<open>i\<close>.\<close>

record match =
  group0 :: string
  groups :: groups

definition group :: "match \<Rightarrow> nat \<Rightarrow> string" where
  "group m i = (if i = 0 then group0 m else (case map_of (groups m) i of Some t \<Rightarrow> t | None \<Rightarrow> []))"

text \<open>The pattern tried at one position: \<open>s\<close> is what is left of the subject \<open>w\<close> there.\<close>

definition match_here :: "regex \<Rightarrow> string \<Rightarrow> string \<Rightarrow> match option" where
  "match_here r w s =
     rmatch w r s [] (\<lambda>s' g. Some \<lparr>group0 = take (length s - length s') s, groups = g\<rparr>)"

text \<open>\<^verbatim>\<open>re.match(r, w)\<close> tries the start of the subject only.\<close>

definition re_match :: "regex \<Rightarrow> string \<Rightarrow> match option" where
  "re_match r w = match_here r w w"

text \<open>\<^verbatim>\<open>re.search(r, w)\<close> tries every position from the left, the end of the subject
  included, and returns the first match.\<close>

fun search_from :: "regex \<Rightarrow> string \<Rightarrow> string \<Rightarrow> match option" where
  "search_from r w [] = match_here r w []"
| "search_from r w (c # cs) = orelse (match_here r w (c # cs)) (search_from r w cs)"

definition re_search :: "regex \<Rightarrow> string \<Rightarrow> match option" where
  "re_search r w = search_from r w w"

text \<open>\<^verbatim>\<open>re.sub(cls, repl, s)\<close> for a pattern that is one character class: every
  character of the class is replaced.\<close>

definition re_sub_class :: "(char \<Rightarrow> bool) \<Rightarrow> string \<Rightarrow> string \<Rightarrow> string" where
  "re_sub_class P repl s = concat (map (\<lambda>c. if P c then repl else [c]) s)"

section \<open>The program\<close>

subsection \<open>Title extractor\<close>

text \<open>\<^verbatim>\<open>r'^[A-Z]{2,}-\d{3}-\d{2}'\<close>\<close>

definition course_pattern :: regex where
  "course_pattern =
     Seq Bol (Seq (Rep is_upper 2 None) (Seq (Lit CHR ''-'')
       (Seq (Rep is_digit 3 (Some 3)) (Seq (Lit CHR ''-'') (Rep is_digit 2 (Some 2))))))"

text \<open>\<^verbatim>\<open>r'[^A-Za-z0-9\- ]'\<close>\<close>

definition artifact :: "char \<Rightarrow> bool" where
  "artifact c = (\<not> (is_upper c \<or> is_lower c \<or> is_digit c \<or> c = CHR ''-'' \<or> c = CHR '' ''))"

text \<open>The loop of \<^verbatim>\<open>extract_course_title\<close> over the lines; it returns at the first
  line that the pattern matches.\<close>

fun course_title_loop :: "string list \<Rightarrow> string" where
  "course_title_loop [] = ''Unknown Course''"
| "course_title_loop (line # lines) =
     (if re_match course_pattern line \<noteq> None then re_sub_class artifact [] (strip line)
      else course_title_loop lines)"

definition extract_course_title :: "string \<Rightarrow> string" where
  "extract_course_title text = course_title_loop (splitlines text)"

subsection \<open>Grade line parser\<close>

text \<open>An entry is one dictionary of \<^verbatim>\<open>extracted_data\<close>; a row of the data frame has
  the column \<open>Weight\<close> as well. The cells of \<open>Achieved\<close> and \<open>Total\<close> are numbers, as
  the parser writes them; a weight cell can be missing (\<open>NaN\<close> in pandas).\<close>

datatype cell = Num real | NaN

record entry =
  Section :: string
  Item :: string
  Achieved :: real
  Total :: real

record row = entry +
  Weight :: cell

type_synonym dataframe = "row list"

definition headers :: "string list" where
  "headers = [''Grade tem'', ''Points'', ''Comments'', ''Grades -'']"

text \<open>\<^verbatim>\<open>r'(\d+)/(\d+)\s*(?:\d+%)?'\<close>\<close>

definition grade_regex :: regex where
  "grade_regex =
     Seq (Grp 1 (Rep is_digit 1 None)) (Seq (Lit CHR ''/'') (Seq (Grp 2 (Rep is_digit 1 None))
       (Seq (Rep is_space 0 None) (Opt (Seq (Rep is_digit 1 None) (Lit CHR ''%''))))))"

text \<open>The body of the loop of \<^verbatim>\<open>extract_assignments_and_grades\<close> for one line:
  the entry it appends, if any.\<close>

definition parse_line :: "string \<Rightarrow> entry option" where
  "parse_line l =
     (let line = strip l in
      if line = [] \<or> list_ex (\<lambda>header. contains line header) headers then None
      else (case re_search grade_regex line of
              None \<Rightarrow> None
            | Some grade_pattern \<Rightarrow>
                let achieved = float (group grade_pattern 1);
                    total = float (group grade_pattern 2);
                    assignment = strip (replace line (group grade_pattern 0) [])
                in Some \<lparr>Section = ''All Grades'', Item = assignment,
                         Achieved = achieved, Total = total\<rparr>))"

fun parse_lines :: "string list \<Rightarrow> entry list \<Rightarrow> entry list" where
  "parse_lines [] extracted_data = extracted_data"
| "parse_lines (l # ls) extracted_data =
     (case parse_line l of
        None \<Rightarrow> parse_lines ls extracted_data
      | Some e \<Rightarrow> parse_lines ls (extracted_data @ [e]))"

definition with_weight :: "cell \<Rightarrow> entry \<Rightarrow> row" where
  "with_weight w e = entry.extend e \<lparr>Weight = w\<rparr>"

definition extract_assignments_and_grades :: "string \<Rightarrow> dataframe" where
  "extract_assignments_and_grades text =
     (let extracted_data = parse_lines (splitlines text) [] in
      if extracted_data = [] then []
      else map (with_weight (Num 100)) extracted_data)"

subsection \<open>Grade aggregator\<close>

text \<open>What the code can raise. Every division is written with its failure on a zero
  divisor, and \<^verbatim>\<open>.iloc[0]\<close> with its failure on an empty selection.\<close>

datatype error = ZeroDivisionError | IndexError

definition py_div :: "real \<Rightarrow> real \<Rightarrow> error + real" where
  "py_div a b = (if b = 0 then Inl ZeroDivisionError else Inr (a / b))"

text \<open>Arithmetic on values that can be \<open>NaN\<close>: it propagates, and every comparison
  with it is false.\<close>

fun cell_add :: "cell \<Rightarrow> cell \<Rightarrow> cell" where
  "cell_add (Num a) (Num b) = Num (a + b)"
| "cell_add _ _ = NaN"

fun cell_mul :: "cell \<Rightarrow> cell \<Rightarrow> cell" where
  "cell_mul (Num a) (Num b) = Num (a * b)"
| "cell_mul _ _ = NaN"

fun cell_div :: "cell \<Rightarrow> cell \<Rightarrow> error + cell" where
  "cell_div (Num a) (Num b) = (if b = 0 then Inl ZeroDivisionError else Inr (Num (a / b)))"
| "cell_div NaN (Num b) = (if b = 0 then Inl ZeroDivisionError else Inr NaN)"
| "cell_div _ NaN = Inr NaN"

fun cell_gt :: "cell \<Rightarrow> real \<Rightarrow> bool" where
  "cell_gt (Num a) b = (a > b)"
| "cell_gt NaN b = False"

text \<open>\<^verbatim>\<open>round(x, 2)\<close>: to the nearest multiple of 1/100, a tie going to the even one.\<close>

definition round_half_even :: "real \<Rightarrow> int" where
  "round_half_even x =
     (let f = \<lfloor>x\<rfloor>; d = x - of_int f
      in if d < 1 / 2 then f else if d > 1 / 2 then f + 1 else if even f then f else f + 1)"

fun round2 :: "cell \<Rightarrow> cell" where
  "round2 (Num x) = Num (of_int (round_half_even (x * 100)) / 100)"
| "round2 NaN = NaN"

text \<open>\<^verbatim>\<open>grades_df['Section'].unique()\<close>: the distinct values in the order of their
  first appearance.\<close>

fun unique :: "'a list \<Rightarrow> 'a list" where
  "unique [] = []"
| "unique (x # xs) = x # removeAll x (unique xs)"

text \<open>One value of the dictionary \<^verbatim>\<open>section_grades\<close>; \<open>weight\<close> is \<open>None\<close> where the
  code stores Python's \<^verbatim>\<open>None\<close>. The dictionary keeps the order of insertion, so it
  is an association list.\<close>

record section_grade =
  percentage :: real
  weight :: "cell option"

definition section_weight_of :: "row list \<Rightarrow> error + cell option" where
  "section_weight_of section_data =
     (if \<not> list_all (\<lambda>r. Weight r = NaN) section_data
      then (case section_data of [] \<Rightarrow> Inl IndexError | r # _ \<Rightarrow> Inr (Some (Weight r)))
      else Inr None)"

fun section_loop :: "dataframe \<Rightarrow> string list \<Rightarrow> (string \<times> section_grade) list
                      \<Rightarrow> error + (string \<times> section_grade) list" where
  "section_loop grades_df [] section_grades = Inr section_grades"
| "section_loop grades_df (section # rest) section_grades =
     (let section_data = filter (\<lambda>r. Section r = section) grades_df;
          section_achieved = sum_list (map Achieved section_data);
          section_total = sum_list (map Total section_data)
      in case section_weight_of section_data of
           Inl e \<Rightarrow> Inl e
         | Inr section_weight \<Rightarrow>
             if section_total > 0 then
               (case py_div section_achieved section_total of
                  Inl e \<Rightarrow> Inl e
                | Inr q \<Rightarrow>
                    section_loop grades_df rest
                      (AList.update section \<lparr>percentage = q * 100, weight = section_weight\<rparr>
                         section_grades))
             else section_loop grades_df rest section_grades)"

fun weighted_loop :: "(string \<times> section_grade) list \<Rightarrow> cell \<Rightarrow> cell \<Rightarrow> error + cell \<times> cell" where
  "weighted_loop [] weighted_sum total_weight = Inr (weighted_sum, total_weight)"
| "weighted_loop ((section, data) # rest) weighted_sum total_weight =
     (case weight data of
        None \<Rightarrow> weighted_loop rest weighted_sum total_weight
      | Some w \<Rightarrow>
          (case cell_div w (Num 100) of
             Inl e \<Rightarrow> Inl e
           | Inr q \<Rightarrow>
               weighted_loop rest (cell_add weighted_sum (cell_mul (Num (percentage data)) q))
                 (cell_add total_weight w)))"

text \<open>The weighted branch: \<open>Some\<close> of what it returns, or \<open>None\<close> when control falls
  through to the simple average.\<close>

definition weighted_average :: "(string \<times> section_grade) list \<Rightarrow> error + cell option" where
  "weighted_average section_grades =
     (if list_ex (\<lambda>(section, grade). weight grade \<noteq> None) section_grades then
        (case weighted_loop section_grades (Num 0) (Num 0) of
           Inl e \<Rightarrow> Inl e
         | Inr (weighted_sum, total_weight) \<Rightarrow>
             if cell_gt total_weight 0 then
               (case cell_div (Num 100) total_weight of
                  Inl e \<Rightarrow> Inl e
                | Inr q \<Rightarrow> Inr (Some (round2 (cell_mul weighted_sum q))))
             else Inr None)
      else Inr None)"

definition simple_average :: "dataframe \<Rightarrow> error + cell" where
  "simple_average grades_df =
     (let total_achieved = sum_list (map Achieved grades_df);
          total_possible = sum_list (map Total grades_df)
      in if total_possible > 0 then
           (case py_div total_achieved total_possible of
              Inl e \<Rightarrow> Inl e
            | Inr q \<Rightarrow> Inr (round2 (Num (q * 100))))
         else Inr (Num 0))"

definition calculate_overall_grade :: "dataframe \<Rightarrow> error + cell" where
  "calculate_overall_grade grades_df =
     (if grades_df = [] then Inr (Num 0)
      else (case section_loop grades_df (unique (map Section grades_df)) [] of
              Inl e \<Rightarrow> Inl e
            | Inr section_grades \<Rightarrow>
                (case weighted_average section_grades of
                   Inl e \<Rightarrow> Inl e
                 | Inr (Some r) \<Rightarrow> Inr r
                 | Inr None \<Rightarrow> simple_average grades_df)))"


section \<open>The two patterns, read directly\<close>

text \<open>What the backtracking matcher computes for the two patterns of the program, written
  with the longest runs of digits, spaces and capitals. The lemmas \<open>match_here_grade\<close>
  and \<open>re_match_course\<close> below prove that the matcher agrees with them.\<close>

definition percent_at :: "string \<Rightarrow> string" where
  "percent_at s =
     (let d3 = takeWhile is_digit s
      in if d3 \<noteq> [] \<and> take 1 (dropWhile is_digit s) = ''%'' then d3 @ ''%'' else [])"

definition grade_at :: "string \<Rightarrow> match option" where
  "grade_at s =
     (let d1 = takeWhile is_digit s in
      if d1 = [] then None
      else (case dropWhile is_digit s of
              [] \<Rightarrow> None
            | c # r2 \<Rightarrow>
                if c \<noteq> CHR ''/'' then None
                else let d2 = takeWhile is_digit r2; r3 = dropWhile is_digit r2 in
                     if d2 = [] then None
                     else let ws = takeWhile is_space r3; r4 = dropWhile is_space r3
                          in Some \<lparr>group0 = d1 @ ''/'' @ d2 @ ws @ percent_at r4,
                                   groups = [(2, d2), (1, d1)]\<rparr>))"

text \<open>The search for the grade pattern: the first position where \<open>grade_at\<close> matches.\<close>

fun grade_search :: "string \<Rightarrow> match option" where
  "grade_search [] = grade_at []"
| "grade_search (c # cs) =
     (case grade_at (c # cs) of Some m \<Rightarrow> Some m | None \<Rightarrow> grade_search cs)"

definition course_at :: "string \<Rightarrow> bool" where
  "course_at s =
     (2 \<le> length (takeWhile is_upper s) \<and>
      (case dropWhile is_upper s of
         [] \<Rightarrow> False
       | c # r1 \<Rightarrow>
           c = CHR ''-'' \<and> 3 \<le> length (takeWhile is_digit r1) \<and>
           (case drop 3 r1 of
              [] \<Rightarrow> False
            | c2 # r2 \<Rightarrow> c2 = CHR ''-'' \<and> 2 \<le> length (takeWhile is_digit r2))))"

section \<open>The words of the specification\<close>

text \<open>An integer is a non-empty string of decimal digits.\<close>

definition digits :: "string \<Rightarrow> bool" where
  "digits d = (d \<noteq> [] \<and> list_all is_digit d)"

text \<open>A text has an integer-slash-integer token when a digit, a slash and a digit follow
  one another somewhere in it.\<close>

fun has_token :: "string \<Rightarrow> bool" where
  "has_token (a # c # b # r) =
     ((is_digit a \<and> c = CHR ''/'' \<and> is_digit b) \<or> has_token (c # b # r))"
| "has_token _ = False"

text \<open>A token starts a text when the text is digits, a slash and a digit.\<close>

definition starts_token :: "string \<Rightarrow> bool" where
  "starts_token s =
     (takeWhile is_digit s \<noteq> [] \<and>
      (case dropWhile is_digit s of c # b # r \<Rightarrow> c = CHR ''/'' \<and> is_digit b | _ \<Rightarrow> False))"

text \<open>A line has the shape of a course code when it starts with two or more capital
  letters, a hyphen, three digits, a hyphen and two digits.\<close>

definition course_code_line :: "string \<Rightarrow> bool" where
  "course_code_line l =
     (\<exists>u a b c e f rest.
        l = u @ ''-'' @ [a, b, c] @ ''-'' @ [e, f] @ rest \<and> 2 \<le> length u \<and>
        list_all is_upper u \<and> list_all is_digit [a, b, c] \<and> list_all is_digit [e, f])"

text \<open>The characters that the title keeps: letters, digits, hyphens and spaces.\<close>

definition kept :: "char \<Rightarrow> bool" where
  "kept c = (is_upper c \<or> is_lower c \<or> is_digit c \<or> c = CHR ''-'' \<or> c = CHR '' '')"

text \<open>The text of the worked example of the specification, four lines.\<close>

definition example_text :: string where
  "example_text =
     ''MIS-353-01 Fall'' @ [CHR 0x0A] @ ''Homework 1 18/20'' @ [CHR 0x0A] @
     ''Grades - Header'' @ [CHR 0x0A] @ ''Quiz 1 9/10 90%''"

section \<open>The matcher on the two patterns\<close>

lemma orelse_simps [simp]: "orelse None b = b" "orelse (Some r) b = Some r"
  by (simp_all add: orelse_def)

lemma rep_unbounded:
  assumes "k (dropWhile P s) \<noteq> None \<or> (\<forall>c cs. P c \<longrightarrow> k (c # cs) = None)"
  shows "rep P lo None s k = (if lo \<le> length (takeWhile P s) then k (dropWhile P s) else None)"
  using assms
proof (induction s arbitrary: lo)
  case Nil
  then show ?case by simp
next
  case (Cons c cs)
  show ?case
  proof (cases "P c")
    case True
    have ih: "rep P (lo - 1) None cs k =
              (if lo - 1 \<le> length (takeWhile P cs) then k (dropWhile P cs) else None)"
      using Cons.IH [of "lo - 1"] Cons.prems True by simp
    from Cons.prems True have "k (dropWhile P cs) \<noteq> None \<or> k (c # cs) = None"
      by auto
    then show ?thesis using True ih
      by (cases "k (dropWhile P cs)") (auto simp: orelse_def)
  next
    case False
    then show ?thesis by simp
  qed
qed

lemma rep_exact:
  "rep P n (Some n) s k = (if n \<le> length (takeWhile P s) then k (drop n s) else None)"
proof (induction s arbitrary: n)
  case Nil
  then show ?case by simp
next
  case (Cons c cs)
  show ?case
  proof (cases n)
    case 0
    then show ?thesis by simp
  next
    case (Suc m)
    then show ?thesis using Cons.IH [of m]
      by (auto simp: orelse_def split: option.splits)
  qed
qed

lemma take_length_dropWhile: "take (length s - length (dropWhile P s)) s = takeWhile P s"
proof -
  have "length s = length (takeWhile P s) + length (dropWhile P s)"
    by (metis length_append takeWhile_dropWhile_id)
  then have "length s - length (dropWhile P s) = length (takeWhile P s)" by simp
  then show ?thesis by (metis append_eq_conv_conj takeWhile_dropWhile_id)
qed

lemma not_digit_slash [simp]: "\<not> is_digit CHR ''/''" "\<not> is_digit CHR ''%''"
  by (simp_all add: is_digit_def code_def)

lemma take_rest:
  assumes "s = a @ t"
  shows "take (length s - length t) s = a"
  using assms by simp

lemma match_here_grade: "match_here grade_regex w s = grade_at s"
proof -
  define K where "K = (\<lambda>(s'::string) (g::groups). Some \<lparr>group0 = take (length s - length s') s, groups = g\<rparr>)"
  define d1 where "d1 = takeWhile is_digit s"
  define r1 where "r1 = dropWhile is_digit s"
  have s1: "s = d1 @ r1" by (simp add: d1_def r1_def)
  define pct where "pct = (\<lambda>g s'. rep is_digit 1 None s'
      (\<lambda>s''. case s'' of [] \<Rightarrow> None | x # xs \<Rightarrow> if x = CHR ''%'' then K xs g else None))"
  have pct_eq: "pct g s' = (if takeWhile is_digit s' \<noteq> [] \<and> take 1 (dropWhile is_digit s') = ''%''
                then K (tl (dropWhile is_digit s')) g else None)" for g s'
  proof -
    have "pct g s' = (if 1 \<le> length (takeWhile is_digit s')
          then (case dropWhile is_digit s' of [] \<Rightarrow> None
                | x # xs \<Rightarrow> if x = CHR ''%'' then K xs g else None) else None)"
      unfolding pct_def by (rule rep_unbounded) simp
    then show ?thesis
      by (cases "dropWhile is_digit s'") (simp_all add: Suc_le_eq del: dropWhile_eq_Nil_conv)
  qed
  define tail where "tail = (\<lambda>g s'. rep is_space 0 None s' (\<lambda>s''. orelse (pct g s'') (K s'' g)))"
  have tail_eq: "tail g s' = orelse (pct g (dropWhile is_space s')) (K (dropWhile is_space s') g)" for g s'
    unfolding tail_def
    by (subst rep_unbounded) (auto simp: orelse_def K_def split: option.splits)
  have tail_some: "tail g s' \<noteq> None" for g s'
    by (simp add: tail_eq orelse_def K_def split: option.splits)
  define snd_int where "snd_int = (\<lambda>g r2. rep is_digit 1 None r2
      (\<lambda>s'. tail ((2, take (length r2 - length s') r2) # g) s'))"
  have snd_eq: "snd_int g r2 = (if takeWhile is_digit r2 = [] then None
        else tail ((2, takeWhile is_digit r2) # g) (dropWhile is_digit r2))" for g r2
    unfolding snd_int_def
    by (subst rep_unbounded) (auto simp: tail_some take_length_dropWhile Suc_le_eq)
  define k1 where "k1 = (\<lambda>s'::string. case s' of [] \<Rightarrow> None
         | x # xs \<Rightarrow> if x = CHR ''/'' then snd_int [(1, take (length s - length s') s)] xs else None)"
  have unfold: "match_here grade_regex w s = rep is_digit 1 None s k1"
    unfolding match_here_def grade_regex_def snd_int_def tail_def pct_def K_def k1_def
    by (simp cong: list.case_cong if_cong)
  have "rep is_digit 1 None s k1 =
          (if 1 \<le> length (takeWhile is_digit s) then k1 (dropWhile is_digit s) else None)"
    by (rule rep_unbounded) (simp add: k1_def)
  moreover have "k1 r1 = (case r1 of [] \<Rightarrow> None
             | x # xs \<Rightarrow> if x = CHR ''/'' then snd_int [(1, d1)] xs else None)"
    unfolding k1_def d1_def r1_def take_length_dropWhile ..
  ultimately have first: "match_here grade_regex w s = (if d1 = [] then None
       else (case r1 of [] \<Rightarrow> None
             | x # xs \<Rightarrow> if x = CHR ''/'' then snd_int [(1, d1)] xs else None))"
    unfolding unfold by (simp add: Suc_le_eq d1_def r1_def del: dropWhile_eq_Nil_conv)
  have ga0: "grade_at s = (if d1 = [] then None
       else (case r1 of [] \<Rightarrow> None
             | c # r2 \<Rightarrow>
                if c \<noteq> CHR ''/'' then None
                else if takeWhile is_digit r2 = [] then None
                     else Some \<lparr>group0 = d1 @ ''/'' @ takeWhile is_digit r2
                                  @ takeWhile is_space (dropWhile is_digit r2)
                                  @ percent_at (dropWhile is_space (dropWhile is_digit r2)),
                                groups = [(2, takeWhile is_digit r2), (1, d1)]\<rparr>))"
    unfolding grade_at_def d1_def r1_def Let_def ..
  show ?thesis
  proof (cases "d1 = []")
    case True
    then show ?thesis by (simp add: first ga0)
  next
    case d1: False
    show ?thesis
    proof (cases r1)
      case Nil
      then show ?thesis using d1 by (simp add: first ga0)
    next
      case (Cons x r2)
      show ?thesis
      proof (cases "x = CHR ''/''")
        case False
        then show ?thesis using d1 Cons by (simp add: first ga0)
      next
        case slash: True
        define d2 where "d2 = takeWhile is_digit r2"
        define r3 where "r3 = dropWhile is_digit r2"
        define ws where "ws = takeWhile is_space r3"
        define r4 where "r4 = dropWhile is_space r3"
        have s2: "s = d1 @ ''/'' @ d2 @ ws @ r4"
          using s1 Cons slash by (simp add: d2_def r3_def ws_def r4_def)
        show ?thesis
        proof (cases "d2 = []")
          case True
          then show ?thesis using d1 Cons slash
            by (simp add: first snd_eq ga0 d2_def)
        next
          case d2: False
          define g where "g = [(2, d2), (1::nat, d1)]"
          have m: "match_here grade_regex w s = orelse (pct g r4) (K r4 g)"
            using d1 Cons slash d2
            by (simp add: first snd_eq tail_eq d2_def r3_def r4_def g_def)
          have k4: "K r4 g = Some \<lparr>group0 = d1 @ ''/'' @ d2 @ ws, groups = g\<rparr>"
            unfolding K_def using take_rest [of s "d1 @ ''/'' @ d2 @ ws" r4] s2 by simp
          have ga: "grade_at s = Some \<lparr>group0 = d1 @ ''/'' @ d2 @ ws @ percent_at r4, groups = g\<rparr>"
            using d1 Cons slash d2
            by (simp add: ga0 d2_def r3_def ws_def r4_def g_def)
          show ?thesis
          proof (cases "takeWhile is_digit r4 \<noteq> [] \<and> take 1 (dropWhile is_digit r4) = ''%''")
            case False
            then have "pct g r4 = None" "percent_at r4 = []"
              by (auto simp: pct_eq percent_at_def)
            then show ?thesis by (simp add: m k4 ga)
          next
            case True
            define d3 where "d3 = takeWhile is_digit r4"
            define r5 where "r5 = tl (dropWhile is_digit r4)"
            from True have dw: "dropWhile is_digit r4 = CHR ''%'' # r5"
              by (cases "dropWhile is_digit r4") (auto simp: r5_def)
            have "r4 = d3 @ dropWhile is_digit r4" by (simp add: d3_def)
            then have r4: "r4 = d3 @ ''%'' @ r5" using dw by simp
            have s3: "s = (d1 @ ''/'' @ d2 @ ws @ d3 @ ''%'') @ r5"
              using s2 r4 by simp
            have "K r5 g = Some \<lparr>group0 = d1 @ ''/'' @ d2 @ ws @ d3 @ ''%'', groups = g\<rparr>"
              unfolding K_def using take_rest [OF s3] by simp
            moreover have "pct g r4 = K r5 g" using True by (simp add: pct_eq r5_def)
            moreover have "percent_at r4 = d3 @ ''%''" using True by (simp add: percent_at_def d3_def)
            ultimately show ?thesis by (simp add: m ga)
          qed
        qed
      qed
    qed
  qed
qed

lemma search_from_grade: "search_from grade_regex w s = grade_search s"
  by (induction s) (simp_all add: match_here_grade orelse_def split: option.splits)

lemma re_search_grade: "re_search grade_regex w = grade_search w"
  by (simp add: re_search_def search_from_grade)

lemma not_upper_hyphen [simp]: "\<not> is_upper CHR ''-''" "\<not> is_digit CHR ''-''"
  by (simp_all add: is_upper_def is_digit_def code_def)

lemma re_match_course: "(re_match course_pattern s \<noteq> None) = course_at s"
proof -
  define K where "K = (\<lambda>(s'::string) (g::groups). Some \<lparr>group0 = take (length s - length s') s, groups = g\<rparr>)"
  define k3 where "k3 = (\<lambda>s'::string. case s' of [] \<Rightarrow> None
        | x # xs \<Rightarrow> if x = CHR ''-'' then rep is_digit 2 (Some 2) xs (\<lambda>s'. K s' []) else None)"
  define k1 where "k1 = (\<lambda>s'::string. case s' of [] \<Rightarrow> None
        | x # xs \<Rightarrow> if x = CHR ''-'' then rep is_digit 3 (Some 3) xs k3 else None)"
  have unfold: "re_match course_pattern s = rep is_upper 2 None s k1"
    unfolding re_match_def match_here_def course_pattern_def k1_def k3_def K_def
    by (simp cong: list.case_cong if_cong)
  have k3: "(k3 t \<noteq> None) = (case t of [] \<Rightarrow> False
        | c2 # r2 \<Rightarrow> c2 = CHR ''-'' \<and> 2 \<le> length (takeWhile is_digit r2))" for t
    unfolding k3_def by (cases t) (simp_all add: rep_exact K_def)
  have k1: "(k1 t \<noteq> None) = (case t of [] \<Rightarrow> False
        | c # r1 \<Rightarrow> c = CHR ''-'' \<and> 3 \<le> length (takeWhile is_digit r1) \<and> k3 (drop 3 r1) \<noteq> None)" for t
    unfolding k1_def by (cases t) (simp_all add: rep_exact)
  have "rep is_upper 2 None s k1 =
          (if 2 \<le> length (takeWhile is_upper s) then k1 (dropWhile is_upper s) else None)"
    by (rule rep_unbounded) (simp add: k1_def)
  then have "(re_match course_pattern s \<noteq> None) =
          (2 \<le> length (takeWhile is_upper s) \<and> k1 (dropWhile is_upper s) \<noteq> None)"
    unfolding unfold by simp
  then show ?thesis
    unfolding course_at_def k1 k3 by (simp cong: list.case_cong)
qed

lemma takeWhile_all: "list_all P u \<Longrightarrow> \<not> P c \<Longrightarrow> takeWhile P (u @ c # r) = u"
  by (induction u) auto

lemma dropWhile_all: "list_all P u \<Longrightarrow> \<not> P c \<Longrightarrow> dropWhile P (u @ c # r) = c # r"
  by (induction u) auto

lemma course_at_intro:
  assumes "2 \<le> length u" "list_all is_upper u" "list_all is_digit [a, b, c]" "list_all is_digit [e, f]"
  shows "course_at (u @ ''-'' @ [a, b, c] @ ''-'' @ [e, f] @ rest)"
  using assms
  by (simp add: course_at_def takeWhile_all dropWhile_all)

lemma course_at_elim:
  assumes "course_at s"
  obtains u a b c e f rest where "s = u @ ''-'' @ [a, b, c] @ ''-'' @ [e, f] @ rest"
    "2 \<le> length u" "list_all is_upper u" "list_all is_digit [a, b, c]" "list_all is_digit [e, f]"
proof -
  define u where "u = takeWhile is_upper s"
  have s: "s = u @ dropWhile is_upper s" by (simp add: u_def)
  have u: "2 \<le> length u" "list_all is_upper u"
    using assms by (auto simp: course_at_def u_def list_all_iff dest: set_takeWhileD)
  from assms obtain r1 where r1: "dropWhile is_upper s = CHR ''-'' # r1"
    "3 \<le> length (takeWhile is_digit r1)"
    by (auto simp: course_at_def split: list.splits)
  from assms r1 obtain r2 where r2: "drop 3 r1 = CHR ''-'' # r2" "2 \<le> length (takeWhile is_digit r2)"
    by (auto simp: course_at_def split: list.splits)
  define t where "t = takeWhile is_digit r1"
  from r1 obtain a b c t' where t: "t = a # b # c # t'"
    unfolding t_def [symmetric] by (cases t; cases "tl t"; cases "tl (tl t)") auto
  have r1eq: "r1 = t @ dropWhile is_digit r1" by (simp add: t_def)
  have digs: "list_all is_digit [a, b, c]"
    using t set_takeWhileD [of _ is_digit r1] by (auto simp: t_def)
  have r1abc: "r1 = [a, b, c] @ drop 3 r1"
    using r1eq t by (metis append_take_drop_id append_Cons append_Nil take_Suc_Cons take0 numeral_3_eq_3)
  define t2 where "t2 = takeWhile is_digit r2"
  from r2 obtain e f t2' where t2: "t2 = e # f # t2'"
    unfolding t2_def [symmetric] by (cases t2; cases "tl t2") auto
  have r2eq: "r2 = t2 @ dropWhile is_digit r2" by (simp add: t2_def)
  have digs2: "list_all is_digit [e, f]"
    using t2 set_takeWhileD [of _ is_digit r2] by (auto simp: t2_def)
  have "s = u @ ''-'' @ [a, b, c] @ ''-'' @ [e, f] @ (t2' @ dropWhile is_digit r2)"
    using s r1 r1abc r2 r2eq t2 by (metis append_Cons append_Nil append_assoc)
  then show ?thesis using that u digs digs2 by blast
qed

section \<open>The aggregator never raises\<close>

lemma section_weight_of_Inr:
  "section_weight_of d =
     Inr (if list_all (\<lambda>r. Weight r = NaN) d then None else Some (Weight (hd d)))"
  by (cases d) (auto simp: section_weight_of_def)

lemma section_loop_zero:
  assumes "\<forall>s \<in> set secs. sum_list (map Total (filter (\<lambda>r. Section r = s) df)) \<le> 0"
  shows "section_loop df secs sg = Inr sg"
  using assms
  by (induction secs arbitrary: sg) (simp_all add: section_weight_of_Inr Let_def)

lemma section_loop_Inr: "\<exists>sg'. section_loop df secs sg = Inr sg'"
  by (induction secs arbitrary: sg) (simp_all add: section_weight_of_Inr Let_def py_div_def)

lemma cell_div_100: "cell_div w (Num 100) = Inr (case w of Num x \<Rightarrow> Num (x / 100) | NaN \<Rightarrow> NaN)"
  by (cases w) simp_all

lemma weighted_loop_Inr: "\<exists>p. weighted_loop sg a b = Inr p"
proof (induction sg arbitrary: a b)
  case Nil
  then show ?case by simp
next
  case (Cons x sg)
  then show ?case
    by (cases x) (simp add: cell_div_100 split: option.splits)
qed

lemma weighted_average_Inr: "\<exists>r. weighted_average sg = Inr r"
proof -
  obtain ws tw where p: "weighted_loop sg (Num 0) (Num 0) = Inr (ws, tw)"
    using weighted_loop_Inr [of sg "Num 0" "Num 0"] by (metis surj_pair)
  show ?thesis
  proof (cases tw)
    case (Num t)
    then show ?thesis using p by (cases ws) (simp_all add: weighted_average_def)
  next
    case NaN
    then show ?thesis using p by (simp add: weighted_average_def)
  qed
qed

lemma simple_average_Inr: "\<exists>r. simple_average df = Inr r"
  by (simp add: simple_average_def Let_def py_div_def)

lemma calculate_overall_grade_Inr: "\<exists>r. calculate_overall_grade df = Inr r"
proof -
  obtain sg where sg: "section_loop df (unique (map Section df)) [] = Inr sg"
    using section_loop_Inr by blast
  obtain r where r: "weighted_average sg = Inr r"
    using weighted_average_Inr by blast
  show ?thesis
    using sg r simple_average_Inr [of df]
    by (auto simp: calculate_overall_grade_def split: option.splits)
qed

lemma set_unique [simp]: "set (unique xs) = set xs"
  by (induction xs) auto

text \<open>
  Claim C7. \<^verbatim>\<open>calculate_overall_grade\<close> does not raise on input without points: on
  the empty data frame it returns 0, and on every data frame in which each section's
  totals and the grand total sum to zero it returns 0 as well, where \<open>Inl\<close> would
  be the division error.
\<close>

theorem zero_total_yields_zero:
  "calculate_overall_grade [] = Inr (Num 0) \<and>
   ((\<forall>section \<in> set (map Section df).
        sum_list (map Total (filter (\<lambda>r. Section r = section) df)) = 0)
      \<and> sum_list (map Total df) = 0
    \<longrightarrow> calculate_overall_grade df = Inr (Num 0))"
proof (intro conjI impI)
  show "calculate_overall_grade [] = Inr (Num 0)"
    by (simp add: calculate_overall_grade_def)
next
  assume a: "(\<forall>section \<in> set (map Section df).
        sum_list (map Total (filter (\<lambda>r. Section r = section) df)) = 0)
      \<and> sum_list (map Total df) = 0"
  then have "\<forall>s \<in> set (unique (map Section df)).
        sum_list (map Total (filter (\<lambda>r. Section r = s) df)) \<le> 0"
    by simp
  then have "section_loop df (unique (map Section df)) [] = Inr []"
    by (rule section_loop_zero)
  moreover have "weighted_average [] = Inr None"
    by (simp add: weighted_average_def)
  moreover have "simple_average df = Inr (Num 0)"
    using a by (simp add: simple_average_def)
  ultimately show "calculate_overall_grade df = Inr (Num 0)"
    by (simp add: calculate_overall_grade_def)
qed

theorem zero_total_yields_zero_witness:
  "calculate_overall_grade
     [\<lparr>Section = ''All Grades'', Item = ''Quiz'', Achieved = 0, Total = 0, Weight = Num 100\<rparr>,
      \<lparr>Section = ''Labs'', Item = ''Lab'', Achieved = 3, Total = 0, Weight = NaN\<rparr>]
   = Inr (Num 0)"
  using zero_total_yields_zero
    [of "[\<lparr>Section = ''All Grades'', Item = ''Quiz'', Achieved = 0, Total = 0, Weight = Num 100\<rparr>,
          \<lparr>Section = ''Labs'', Item = ''Lab'', Achieved = 3, Total = 0, Weight = NaN\<rparr>]"]
  by simp

section \<open>One section\<close>





section \<open>Frames with one section and one weight\<close>






section \<open>The rows the parser returns\<close>

lemma with_weight_simps [simp]:
  "Section (with_weight w e) = Section e" "Item (with_weight w e) = Item e"
  "Achieved (with_weight w e) = Achieved e" "Total (with_weight w e) = Total e"
  "Weight (with_weight w e) = w"
  by (cases e; simp add: with_weight_def entry.defs)+

lemma parse_lines_map_filter:
  "parse_lines ls extracted_data = extracted_data @ List.map_filter parse_line ls"
  by (induction ls arbitrary: extracted_data) (simp_all add: List.map_filter_simps split: option.splits)

lemma extract_map_filter:
  "extract_assignments_and_grades text =
     map (with_weight (Num 100)) (List.map_filter parse_line (splitlines text))"
  by (simp add: extract_assignments_and_grades_def parse_lines_map_filter Let_def)

lemma parse_line_fields:
  assumes "parse_line l = Some e"
  shows "Section e = ''All Grades''" "0 \<le> Achieved e" "0 \<le> Total e"
  using assms
  by (auto simp: parse_line_def Let_def float_def split: if_splits option.splits)

lemma extract_rows:
  assumes "r \<in> set (extract_assignments_and_grades text)"
  shows "Section r = ''All Grades''" "Weight r = Num 100" "0 \<le> Achieved r" "0 \<le> Total r"
  using assms
  by (auto simp: extract_map_filter List.map_filter_def dest: parse_line_fields)

lemmas char_class_defs = is_digit_def is_space_def is_upper_def is_lower_def is_linebreak_def code_def

lemmas parse_eval = parse_line_def strip_def headers_def re_search_grade
  grade_at_def percent_at_def group_def float_def int_of_digits_def digit_val_def
  char_class_defs Let_def

text \<open>
  Claim C4, amended. Every row that \<^verbatim>\<open>extract_assignments_and_grades\<close> returns has a
  total that is not negative. The parser has no test on the total, and a token such as
  \<^verbatim>\<open>0/0\<close> gives a row with total 0, so "total > 0" does not hold for every row.
\<close>

theorem extracted_totals_nonnegative:
  "\<forall>r \<in> set (extract_assignments_and_grades text). 0 \<le> Total r"
  by (simp add: extract_rows)

lemma extract_quiz_zero:
  "extract_assignments_and_grades ''Quiz 0/0'' =
     [\<lparr>Section = ''All Grades'', Item = ''Quiz'', Achieved = 0, Total = 0, Weight = Num 100\<rparr>]"
  by (simp add: extract_assignments_and_grades_def parse_eval with_weight_def entry.defs)

theorem extracted_totals_nonnegative_witness:
  "0 \<le> Total (hd (extract_assignments_and_grades ''Quiz 0/0''))"
proof -
  have "hd (extract_assignments_and_grades ''Quiz 0/0'')
          \<in> set (extract_assignments_and_grades ''Quiz 0/0'')"
    by (simp add: extract_quiz_zero)
  then show ?thesis
    using extracted_totals_nonnegative [of "''Quiz 0/0''"] by blast
qed

theorem extracted_total_zero_counterexample:
  "extract_assignments_and_grades ''Quiz 0/0'' =
     [\<lparr>Section = ''All Grades'', Item = ''Quiz'', Achieved = 0, Total = 0, Weight = Num 100\<rparr>]"
  by (simp add: extract_assignments_and_grades_def parse_eval with_weight_def entry.defs)





section \<open>Two sections\<close>

lemma distinct_unique [simp]: "distinct (unique xs)"
  by (induction xs) (auto simp: distinct_removeAll)

lemma two_element_list:
  assumes "distinct xs" "set xs = {a, b}" "a \<noteq> b"
  shows "xs = [a, b] \<or> xs = [b, a]"
proof -
  have "length xs = 2"
    using assms by (metis distinct_card card_2_iff)
  then obtain x y where xs: "xs = [x, y]"
    by (cases xs; cases "tl xs"; cases "tl (tl xs)") auto
  then show ?thesis using assms by (auto simp: doubleton_eq_iff)
qed

lemma section_loop_two:
  fixes df :: dataframe
  assumes "s1 \<noteq> s2"
    and "filter (\<lambda>r. Section r = s1) df = r1 # rest1" "Weight r1 = Num w1"
    and "filter (\<lambda>r. Section r = s2) df = r2 # rest2" "Weight r2 = Num w2"
    and "0 < sum_list (map Total (r1 # rest1))" "0 < sum_list (map Total (r2 # rest2))"
    and "p1 = sum_list (map Achieved (r1 # rest1)) / sum_list (map Total (r1 # rest1)) * 100"
    and "p2 = sum_list (map Achieved (r2 # rest2)) / sum_list (map Total (r2 # rest2)) * 100"
  shows "section_loop df [s1, s2] [] =
           Inr [(s1, \<lparr>percentage = p1, weight = Some (Num w1)\<rparr>),
                (s2, \<lparr>percentage = p2, weight = Some (Num w2)\<rparr>)]"
  using assms
  by (simp add: section_weight_of_def py_div_def Let_def)

lemma weighted_average_two:
  assumes "0 < w"
  shows "weighted_average [(s1, \<lparr>percentage = p1, weight = Some (Num w)\<rparr>),
                           (s2, \<lparr>percentage = p2, weight = Some (Num w)\<rparr>)]
         = Inr (Some (round2 (Num ((p1 + p2) / 2))))"
proof -
  define x where "x = (0 + p1 * (w / 100) + p2 * (w / 100)) * (100 / (0 + w + w))"
  have "x = (p1 + p2) / 2"
    using assms by (simp add: x_def field_simps)
  moreover have "weighted_average [(s1, \<lparr>percentage = p1, weight = Some (Num w)\<rparr>),
                           (s2, \<lparr>percentage = p2, weight = Some (Num w)\<rparr>)]
         = Inr (Some (round2 (Num x)))"
    using assms unfolding x_def weighted_average_def by simp
  ultimately show ?thesis by (simp only:)
qed

text \<open>
  Claim C8, amended. For every data frame with exactly two sections whose weights (the
  weight of the first row of each section) are the same positive number, one section at
  80 percent and the other at 100 percent, \<^verbatim>\<open>calculate_overall_grade\<close> returns 90.
  With the common weight 0 the sum of the weights is not positive, and the code returns
  the simple average of all rows instead.
\<close>

theorem two_equal_weight_sections:
  fixes df :: dataframe
  assumes "set (map Section df) = {s1, s2}" "s1 \<noteq> s2"
    and "filter (\<lambda>r. Section r = s1) df = r1 # rest1" "Weight r1 = Num w"
    and "filter (\<lambda>r. Section r = s2) df = r2 # rest2" "Weight r2 = Num w"
    and "0 < w"
    and "0 < sum_list (map Total (r1 # rest1))" "0 < sum_list (map Total (r2 # rest2))"
    and "sum_list (map Achieved (r1 # rest1)) / sum_list (map Total (r1 # rest1)) * 100 = 80"
    and "sum_list (map Achieved (r2 # rest2)) / sum_list (map Total (r2 # rest2)) * 100 = 100"
  shows "calculate_overall_grade df = Inr (Num 90)"
proof -
  have ne: "df \<noteq> []" using assms(3) by auto
  have r: "round2 (Num ((80 + 100) / 2)) = Num 90"
    by (simp add: round_half_even_def)
  have a: "section_loop df [s1, s2] [] =
           Inr [(s1, \<lparr>percentage = 80, weight = Some (Num w)\<rparr>),
                (s2, \<lparr>percentage = 100, weight = Some (Num w)\<rparr>)]"
    by (rule section_loop_two [OF assms(2) assms(3,4) assms(5,6) assms(8,9)])
       (simp_all only: assms(10,11))
  have b: "section_loop df [s2, s1] [] =
           Inr [(s2, \<lparr>percentage = 100, weight = Some (Num w)\<rparr>),
                (s1, \<lparr>percentage = 80, weight = Some (Num w)\<rparr>)]"
    by (rule section_loop_two [OF assms(2) [symmetric] assms(5,6) assms(3,4) assms(9,8)])
       (simp_all only: assms(10,11))
  have "set (unique (map Section df)) = {s1, s2}" using assms(1) by simp
  then have "unique (map Section df) = [s1, s2] \<or> unique (map Section df) = [s2, s1]"
    using assms(2) by (intro two_element_list) simp_all
  then show ?thesis
  proof
    assume "unique (map Section df) = [s1, s2]"
    then show ?thesis
      using a weighted_average_two [OF assms(7), of s1 80 s2 100] r ne
      by (simp add: calculate_overall_grade_def)
  next
    assume "unique (map Section df) = [s2, s1]"
    then show ?thesis
      using b weighted_average_two [OF assms(7), of s2 100 s1 80] r ne
      by (simp add: calculate_overall_grade_def)
  qed
qed

theorem two_equal_weight_sections_witness:
  "calculate_overall_grade
      [\<lparr>Section = ''Homework'', Item = ''HW 1'', Achieved = 8, Total = 10, Weight = Num 30\<rparr>,
       \<lparr>Section = ''Exams'', Item = ''Midterm'', Achieved = 50, Total = 50, Weight = Num 30\<rparr>]
     = Inr (Num 90)"
proof -
  define rh :: row where
    "rh = \<lparr>Section = ''Homework'', Item = ''HW 1'', Achieved = 8, Total = 10, Weight = Num 30\<rparr>"
  define re :: row where
    "re = \<lparr>Section = ''Exams'', Item = ''Midterm'', Achieved = 50, Total = 50, Weight = Num 30\<rparr>"
  have "calculate_overall_grade [rh, re] = Inr (Num 90)"
    by (rule two_equal_weight_sections [of _ "''Homework''" "''Exams''" rh "[]" 30 re "[]"])
       (simp_all add: rh_def re_def)
  then show ?thesis by (simp add: rh_def re_def)
qed

theorem two_zero_weight_sections_counterexample:
  "calculate_overall_grade
      [\<lparr>Section = ''Homework'', Item = ''HW 1'', Achieved = 8, Total = 10, Weight = Num 0\<rparr>,
       \<lparr>Section = ''Exams'', Item = ''Midterm'', Achieved = 1000, Total = 1000, Weight = Num 0\<rparr>]
     = Inr (Num (499 / 5))"
  by (simp add: calculate_overall_grade_def section_weight_of_def py_div_def
      weighted_average_def simple_average_def round_half_even_def)

section \<open>The worked example\<close>

lemma example_lines:
  "splitlines example_text =
     [''MIS-353-01 Fall'', ''Homework 1 18/20'', ''Grades - Header'', ''Quiz 1 9/10 90%'']"
  by (simp add: example_text_def char_class_defs)

lemma example_rows:
  "extract_assignments_and_grades example_text =
     [\<lparr>Section = ''All Grades'', Item = ''Homework 1'', Achieved = 18, Total = 20,
        Weight = Num 100\<rparr>,
      \<lparr>Section = ''All Grades'', Item = ''Quiz 1'', Achieved = 9, Total = 10,
        Weight = Num 100\<rparr>]"
proof -
  have "parse_line ''MIS-353-01 Fall'' = None"
    by (simp add: parse_eval)
  moreover have "parse_line ''Homework 1 18/20'' =
      Some \<lparr>Section = ''All Grades'', Item = ''Homework 1'', Achieved = 18, Total = 20\<rparr>"
    by (simp add: parse_eval)
  moreover have "parse_line ''Grades - Header'' = None"
    by (simp add: parse_eval)
  moreover have "parse_line ''Quiz 1 9/10 90%'' =
      Some \<lparr>Section = ''All Grades'', Item = ''Quiz 1'', Achieved = 9, Total = 10\<rparr>"
    by (simp add: parse_eval)
  ultimately show ?thesis
    by (simp add: extract_assignments_and_grades_def example_lines with_weight_def entry.defs)
qed

lemma example_title: "extract_course_title example_text = ''MIS-353-01 Fall''"
proof -
  have "re_match course_pattern ''MIS-353-01 Fall'' \<noteq> None"
    unfolding re_match_course by (simp add: course_at_def char_class_defs)
  then show ?thesis
    by (simp add: extract_course_title_def example_lines re_sub_class_def artifact_def
        strip_def char_class_defs)
qed

text \<open>
  Claim C1. On the four-line example text the parser returns the two records
  (Homework 1, 18, 20) and (Quiz 1, 9, 10) in this order, the title is
  \<^verbatim>\<open>MIS-353-01 Fall\<close>, and the overall grade of the two records is 90.
\<close>

theorem worked_example:
  "extract_assignments_and_grades example_text =
     [\<lparr>Section = ''All Grades'', Item = ''Homework 1'', Achieved = 18, Total = 20,
        Weight = Num 100\<rparr>,
      \<lparr>Section = ''All Grades'', Item = ''Quiz 1'', Achieved = 9, Total = 10,
        Weight = Num 100\<rparr>]
   \<and> extract_course_title example_text = ''MIS-353-01 Fall''
   \<and> calculate_overall_grade (extract_assignments_and_grades example_text) = Inr (Num 90)"
proof -
  have "round_half_even 9000 = 9000" by (simp add: round_half_even_def)
  then have "calculate_overall_grade (extract_assignments_and_grades example_text) = Inr (Num 90)"
    by (simp add: example_rows calculate_overall_grade_def section_weight_of_def py_div_def
        weighted_average_def)
  then show ?thesis
    using example_rows example_title by simp
qed

section \<open>Header lines\<close>

lemma contains_iff: "contains s h = (\<exists>pre post. s = pre @ h @ post)"
proof (induction s)
  case Nil
  then show ?case by auto
next
  case (Cons c cs)
  show ?case
  proof
    assume "contains (c # cs) h"
    then consider "take (length h) (c # cs) = h" | "contains cs h" by auto
    then show "\<exists>pre post. c # cs = pre @ h @ post"
    proof cases
      case 1
      then have "c # cs = [] @ h @ drop (length h) (c # cs)"
        by (metis append_Nil append_take_drop_id)
      then show ?thesis by blast
    next
      case 2
      then obtain pre post where "cs = pre @ h @ post" using Cons.IH by auto
      then have "c # cs = (c # pre) @ h @ post" by simp
      then show ?thesis by blast
    qed
  next
    assume "\<exists>pre post. c # cs = pre @ h @ post"
    then obtain pre post where e: "c # cs = pre @ h @ post" by auto
    show "contains (c # cs) h"
    proof (cases pre)
      case Nil
      then have "take (length h) (c # cs) = h" using e by simp
      then show ?thesis by simp
    next
      case (Cons x pre')
      then have "cs = pre' @ h @ post" using e by simp
      then have "contains cs h" using Cons.IH by auto
      then show ?thesis by simp
    qed
  qed
qed

lemma dropWhile_keeps:
  assumes "h \<noteq> []" "\<not> P (hd h)"
  shows "\<exists>pre'. dropWhile P (pre @ h @ post) = pre' @ h @ post"
proof (induction pre)
  case Nil
  have "dropWhile P (h @ post) = h @ post"
    using assms by (cases h) auto
  then show ?case by (metis append_Nil)
next
  case (Cons c pre)
  then show ?case by (cases "P c") (auto intro: exI [of _ "c # pre"])
qed

lemma strip_keeps:
  assumes "h \<noteq> []" "\<not> is_space (hd h)" "\<not> is_space (last h)"
  shows "\<exists>pre' post'. strip (pre @ h @ post) = pre' @ h @ post'"
proof -
  obtain pre' where a: "dropWhile is_space (pre @ h @ post) = pre' @ h @ post"
    using dropWhile_keeps [of h is_space pre post] assms(1,2) by blast
  have "rev h \<noteq> []" "\<not> is_space (hd (rev h))"
    using assms by (simp_all add: hd_rev)
  then obtain post' where b: "dropWhile is_space (rev post @ rev h @ rev pre') = post' @ rev h @ rev pre'"
    using dropWhile_keeps [of "rev h" is_space "rev post" "rev pre'"] by blast
  have "strip (pre @ h @ post) = pre' @ h @ rev post'"
    by (simp add: strip_def a b)
  then show ?thesis by blast
qed

lemma header_shape:
  assumes "h \<in> set headers"
  shows "h \<noteq> []" "\<not> is_space (hd h)" "\<not> is_space (last h)"
  using assms by (auto simp: headers_def char_class_defs)

text \<open>
  Claim C6. A line that contains one of the header substrings gives no record, whatever
  else it contains, a grade pattern included: the loop body appends nothing for it, so the
  loop goes on with the same list.
\<close>

theorem header_line_no_record:
  assumes "h \<in> set headers" "l = pre @ h @ post"
  shows "parse_line l = None \<and> parse_lines (l # ls) extracted_data = parse_lines ls extracted_data"
proof -
  obtain pre' post' where "strip l = pre' @ h @ post'"
    using strip_keeps [OF header_shape [OF assms(1)]] assms(2) by blast
  then have "contains (strip l) h" by (auto simp: contains_iff)
  then have "list_ex (\<lambda>header. contains (strip l) header) headers"
    using assms(1) by (auto simp: list_ex_iff)
  then have "parse_line l = None"
    by (simp add: parse_line_def Let_def)
  then show ?thesis by simp
qed

theorem header_line_no_record_witness:
  "parse_line ''  Points 18/20 90%'' = None"
  using header_line_no_record [of "''Points''" "''  Points 18/20 90%''" "''  ''" "'' 18/20 90%''"]
  by (simp add: headers_def)

section \<open>The course title\<close>

lemma course_code_line_at: "course_code_line l = course_at l"
  unfolding course_code_line_def
  by (metis course_at_intro course_at_elim)

lemma course_code_line_eq: "course_code_line l = (re_match course_pattern l \<noteq> None)"
  unfolding course_code_line_at re_match_course ..

lemma re_sub_artifact: "re_sub_class artifact [] s = filter kept s"
  by (induction s) (simp_all add: re_sub_class_def artifact_def kept_def)

lemma course_title_loop_first:
  assumes "\<forall>l \<in> set before. \<not> course_code_line l" "course_code_line line"
  shows "course_title_loop (before @ line # after) = filter kept (strip line)"
  using assms
  by (induction before) (simp_all add: course_code_line_eq re_sub_artifact)

lemma course_title_loop_none:
  assumes "\<forall>l \<in> set ls. \<not> course_code_line l"
  shows "course_title_loop ls = ''Unknown Course''"
  using assms
  by (induction ls) (simp_all add: course_code_line_eq)

text \<open>
  Claim C3, amended. When a line of the text has the shape of a course code,
  \<^verbatim>\<open>extract_course_title\<close> returns the first such line, trimmed of the white space at its
  ends and then with every character other than letters, digits, hyphens and spaces
  removed; when no line has that shape it returns \<^verbatim>\<open>Unknown Course\<close>. Letters and
  digits are those of the pattern, \<^verbatim>\<open>A-Za-z0-9\<close>. The trimming comes first, so
  spaces at the end of the line are not in the title.
\<close>

theorem course_title_first_match:
  "(splitlines text = before @ line # after \<and> (\<forall>l \<in> set before. \<not> course_code_line l)
      \<and> course_code_line line
    \<longrightarrow> extract_course_title text = filter kept (strip line))
   \<and> ((\<forall>l \<in> set (splitlines text). \<not> course_code_line l)
    \<longrightarrow> extract_course_title text = ''Unknown Course'')"
  by (simp add: extract_course_title_def course_title_loop_first course_title_loop_none)

lemma course_at_code: "course_at ''AB-123-45 ''" "\<not> course_at ''Syllabus''"
  by (simp_all add: course_at_def char_class_defs)

theorem course_title_first_match_witness:
  "extract_course_title (''Syllabus'' @ [CHR 0x0A] @ ''AB-123-45 '') = ''AB-123-45''
   \<and> extract_course_title ''Syllabus'' = ''Unknown Course''"
proof -
  have l: "splitlines (''Syllabus'' @ [CHR 0x0A] @ ''AB-123-45 '') = [''Syllabus''] @ ''AB-123-45 '' # []"
    "splitlines ''Syllabus'' = [''Syllabus'']"
    by (simp_all add: char_class_defs)
  have c: "course_code_line ''AB-123-45 ''" "\<not> course_code_line ''Syllabus''"
    by (simp_all add: course_code_line_at course_at_code)
  have s: "filter kept (strip ''AB-123-45 '') = ''AB-123-45''"
    by (simp add: strip_def kept_def char_class_defs)
  have "extract_course_title (''Syllabus'' @ [CHR 0x0A] @ ''AB-123-45 '') = ''AB-123-45''"
    using course_title_first_match
      [of "''Syllabus'' @ [CHR 0x0A] @ ''AB-123-45 ''" "[''Syllabus'']" "''AB-123-45 ''" "[]"]
      l c s by simp
  moreover have "extract_course_title ''Syllabus'' = ''Unknown Course''"
    using course_title_first_match [of "''Syllabus''"] l c by simp
  ultimately show ?thesis by simp
qed

theorem course_title_trailing_space_counterexample:
  "extract_course_title ''AB-123-45 '' = ''AB-123-45''
   \<and> filter kept ''AB-123-45 '' = ''AB-123-45 ''"
proof -
  have "re_match course_pattern ''AB-123-45 '' \<noteq> None"
    unfolding re_match_course by (rule course_at_code)
  then show ?thesis
    by (simp add: extract_course_title_def re_sub_class_def artifact_def kept_def strip_def
        char_class_defs)
qed

section \<open>The first token of a line\<close>

lemma has_token_iff:
  "has_token s = (\<exists>u a b r. s = u @ a # CHR ''/'' # b # r \<and> is_digit a \<and> is_digit b)"
proof (induction s rule: has_token.induct)
  case (1 a c b r)
  show ?case
  proof
    assume "has_token (a # c # b # r)"
    then consider "is_digit a \<and> c = CHR ''/'' \<and> is_digit b" | "has_token (c # b # r)" by auto
    then show "\<exists>u a' b' r'. a # c # b # r = u @ a' # CHR ''/'' # b' # r' \<and> is_digit a' \<and> is_digit b'"
    proof cases
      case 1
      then have "a # c # b # r = [] @ a # CHR ''/'' # b # r" by simp
      then show ?thesis using 1 by blast
    next
      case 2
      then obtain u a' b' r' where "c # b # r = u @ a' # CHR ''/'' # b' # r'" "is_digit a'" "is_digit b'"
        using "1.IH" by auto
      then have "a # c # b # r = (a # u) @ a' # CHR ''/'' # b' # r' \<and> is_digit a' \<and> is_digit b'"
        by simp
      then show ?thesis by blast
    qed
  next
    assume "\<exists>u a' b' r'. a # c # b # r = u @ a' # CHR ''/'' # b' # r' \<and> is_digit a' \<and> is_digit b'"
    then obtain u a' b' r' where e: "a # c # b # r = u @ a' # CHR ''/'' # b' # r'"
      and d: "is_digit a'" "is_digit b'" by auto
    show "has_token (a # c # b # r)"
    proof (cases u)
      case Nil
      then show ?thesis using e d by simp
    next
      case (Cons x u')
      then have "c # b # r = u' @ a' # CHR ''/'' # b' # r'" using e by simp
      then have "has_token (c # b # r)" using "1.IH" d by blast
      then show ?thesis by simp
    qed
  qed
qed (auto simp: append_eq_Cons_conv)

lemma has_token_append: "has_token s \<Longrightarrow> has_token (p @ s @ q)"
proof -
  assume "has_token s"
  then obtain u a b r where "s = u @ a # CHR ''/'' # b # r" "is_digit a" "is_digit b"
    by (auto simp: has_token_iff)
  then have "p @ s @ q = (p @ u) @ a # CHR ''/'' # b # (r @ q) \<and> is_digit a \<and> is_digit b"
    by simp
  then show ?thesis unfolding has_token_iff by blast
qed

lemma no_token_digits: "list_all is_digit d \<Longrightarrow> \<not> has_token d"
  by (auto simp: has_token_iff list_all_iff)

lemma takeWhile_run:
  assumes "list_all P u" "r = [] \<or> \<not> P (hd r)"
  shows "takeWhile P (u @ r) = u" "dropWhile P (u @ r) = r"
proof -
  have "takeWhile P r = [] \<and> dropWhile P r = r"
    using assms(2) by (cases r) auto
  then show "takeWhile P (u @ r) = u" "dropWhile P (u @ r) = r"
    using assms(1) by (induction u) auto
qed

lemma starts_token_intro:
  assumes "digits d1" "is_digit b"
  shows "starts_token (d1 @ CHR ''/'' # b # r)"
  using assms takeWhile_run [of is_digit d1 "CHR ''/'' # b # r"]
  by (simp add: starts_token_def digits_def)

lemma starts_token_elim:
  assumes "starts_token s"
  obtains d1 b r where "s = d1 @ CHR ''/'' # b # r" "digits d1" "is_digit b"
proof -
  from assms obtain b r where "dropWhile is_digit s = CHR ''/'' # b # r" "is_digit b"
    by (auto simp: starts_token_def split: list.splits)
  moreover have "s = takeWhile is_digit s @ dropWhile is_digit s" by simp
  moreover have "digits (takeWhile is_digit s)"
    using assms by (auto simp: starts_token_def digits_def list_all_iff dest: set_takeWhileD)
  ultimately show ?thesis using that by metis
qed

lemma has_token_Cons: "has_token (c # cs) = (starts_token (c # cs) \<or> has_token cs)"
proof
  assume "has_token (c # cs)"
  then obtain u a b r where e: "c # cs = u @ a # CHR ''/'' # b # r" and d: "is_digit a" "is_digit b"
    by (auto simp: has_token_iff)
  show "starts_token (c # cs) \<or> has_token cs"
  proof (cases u)
    case Nil
    then have "c # cs = [a] @ CHR ''/'' # b # r" using e by simp
    then show ?thesis using starts_token_intro [of "[a]" b r] d by (simp add: digits_def)
  next
    case (Cons x u')
    then have "cs = u' @ a # CHR ''/'' # b # r" using e by simp
    then show ?thesis using d by (auto simp: has_token_iff)
  qed
next
  assume "starts_token (c # cs) \<or> has_token cs"
  then show "has_token (c # cs)"
  proof
    assume "starts_token (c # cs)"
    then obtain d1 b r where e: "c # cs = d1 @ CHR ''/'' # b # r" "digits d1" "is_digit b"
      by (rule starts_token_elim)
    then have "c # cs = butlast d1 @ last d1 # CHR ''/'' # b # r" "is_digit (last d1)"
      by (auto simp: digits_def list_all_iff)
    then show ?thesis using e(3) unfolding has_token_iff by blast
  next
    assume "has_token cs"
    then show ?thesis using has_token_append [of cs "[c]" "[]"] by simp
  qed
qed

lemma grade_at_None: "(grade_at s = None) = (\<not> starts_token s)"
proof (cases "dropWhile is_digit s")
  case Nil
  then show ?thesis
    by (simp add: grade_at_def starts_token_def Let_def del: dropWhile_eq_Nil_conv)
next
  case (Cons c r2)
  then show ?thesis
    by (cases r2) (auto simp: grade_at_def starts_token_def Let_def)
qed

lemma grade_search_None: "(grade_search s = None) = (\<not> has_token s)"
proof (induction s)
  case Nil
  then show ?case by (simp add: grade_at_def)
next
  case (Cons c cs)
  then show ?case
    using grade_at_None [of "c # cs"]
    by (auto simp: has_token_Cons split: option.splits)
qed

lemma grade_at_token:
  assumes "digits d1" "digits d2" "rest = [] \<or> \<not> is_digit (hd rest)"
  shows "grade_at (d1 @ ''/'' @ d2 @ rest) =
           Some \<lparr>group0 = d1 @ ''/'' @ d2 @ takeWhile is_space rest
                           @ percent_at (dropWhile is_space rest),
                 groups = [(2, d2), (1, d1)]\<rparr>"
proof -
  have a: "takeWhile is_digit (d1 @ CHR ''/'' # d2 @ rest) = d1"
    "dropWhile is_digit (d1 @ CHR ''/'' # d2 @ rest) = CHR ''/'' # d2 @ rest"
    using takeWhile_run [of is_digit d1 "CHR ''/'' # d2 @ rest"] assms(1)
    by (simp_all add: digits_def)
  have b: "takeWhile is_digit (d2 @ rest) = d2" "dropWhile is_digit (d2 @ rest) = rest"
    using takeWhile_run [of is_digit d2 rest] assms(2,3)
    by (simp_all add: digits_def)
  show ?thesis
    using assms(1,2) by (simp add: grade_at_def a b Let_def digits_def)
qed

lemma not_starts_token:
  assumes "q \<noteq> []" "\<not> is_digit (last q)" "d \<noteq> []" "\<not> has_token (q @ d)"
  shows "\<not> starts_token (q @ d @ x)"
proof
  assume "starts_token (q @ d @ x)"
  then obtain d1 b r where e: "q @ d @ x = d1 @ CHR ''/'' # b # r" and dg: "digits d1" "is_digit b"
    by (rule starts_token_elim)
  have nd: "last q \<in> set q" "\<not> is_digit (last q)" using assms by simp_all
  have tw: "takeWhile is_digit (q @ d @ x) = takeWhile is_digit q"
    "dropWhile is_digit (q @ d @ x) = dropWhile is_digit q @ d @ x"
    using nd by (simp_all add: takeWhile_append1 dropWhile_append1)
  have "takeWhile is_digit (q @ d @ x) = d1" "dropWhile is_digit (q @ d @ x) = CHR ''/'' # b # r"
    unfolding e using takeWhile_run [of is_digit d1 "CHR ''/'' # b # r"] dg
    by (simp_all add: digits_def)
  then have t: "takeWhile is_digit q = d1" and dr: "dropWhile is_digit q @ d @ x = CHR ''/'' # b # r"
    using tw by simp_all
  have "dropWhile is_digit q \<noteq> []" using nd by (auto simp: dropWhile_eq_Nil_conv)
  then obtain q' where q': "dropWhile is_digit q = CHR ''/'' # q'"
    using dr by (cases "dropWhile is_digit q") auto
  have q: "q = d1 @ CHR ''/'' # q'"
    using t q' takeWhile_dropWhile_id [of is_digit q] by simp
  obtain z where "q' @ d = b # z"
    using dr q' assms(3) by (cases q'; cases d) auto
  then have "q @ d = butlast d1 @ last d1 # CHR ''/'' # b # z" "is_digit (last d1)"
    using q dg by (auto simp: digits_def list_all_iff)
  then have "has_token (q @ d)" using dg(2) unfolding has_token_iff by blast
  then show False using assms(4) by simp
qed

lemma grade_search_token:
  assumes "digits d1" "digits d2" "pre = [] \<or> \<not> is_digit (last pre)"
    "\<not> has_token (pre @ d1)" "rest = [] \<or> \<not> is_digit (hd rest)"
  shows "grade_search (pre @ d1 @ ''/'' @ d2 @ rest) =
           Some \<lparr>group0 = d1 @ ''/'' @ d2 @ takeWhile is_space rest
                           @ percent_at (dropWhile is_space rest),
                 groups = [(2, d2), (1, d1)]\<rparr>"
  using assms(3,4)
proof (induction pre)
  case Nil
  have "d1 @ ''/'' @ d2 @ rest \<noteq> []" using assms(1) by (simp add: digits_def)
  then obtain c cs where "d1 @ ''/'' @ d2 @ rest = c # cs" by (cases "d1 @ ''/'' @ d2 @ rest") auto
  then show ?case
    using grade_at_token [OF assms(1,2,5)] by simp
next
  case (Cons c p)
  have d: "d1 \<noteq> []" using assms(1) by (simp add: digits_def)
  have "\<not> is_digit (last (c # p))" using Cons.prems(1) by simp
  then have "\<not> starts_token ((c # p) @ d1 @ ''/'' @ d2 @ rest)"
    using not_starts_token [of "c # p" d1 "''/'' @ d2 @ rest"] d Cons.prems(2) by simp
  then have n: "grade_at (c # p @ d1 @ ''/'' @ d2 @ rest) = None"
    by (simp add: grade_at_None)
  have "p = [] \<or> \<not> is_digit (last p)" using Cons.prems(1) by (cases p) auto
  moreover have "\<not> has_token (p @ d1)"
    using Cons.prems(2) by (simp add: has_token_Cons)
  ultimately show ?case using Cons.IH n by simp
qed

lemma has_token_digits:
  "has_token s = (\<exists>pre a b post. s = pre @ a @ ''/'' @ b @ post \<and> digits a \<and> digits b)"
proof
  assume "has_token s"
  then obtain u a b r where "s = u @ a # CHR ''/'' # b # r" "is_digit a" "is_digit b"
    by (auto simp: has_token_iff)
  then have "s = u @ [a] @ ''/'' @ [b] @ r \<and> digits [a] \<and> digits [b]"
    by (simp add: digits_def)
  then show "\<exists>pre a b post. s = pre @ a @ ''/'' @ b @ post \<and> digits a \<and> digits b"
    by blast
next
  assume "\<exists>pre a b post. s = pre @ a @ ''/'' @ b @ post \<and> digits a \<and> digits b"
  then obtain pre a b post where e: "s = pre @ a @ ''/'' @ b @ post" "digits a" "digits b"
    by auto
  then obtain y b' where b: "b = y # b'" "is_digit y"
    by (cases b) (auto simp: digits_def)
  have "a = butlast a @ [last a]" "is_digit (last a)"
    using e(2) by (auto simp: digits_def list_all_iff)
  then have "s = (pre @ butlast a) @ last a # CHR ''/'' # y # (b' @ post)"
    using e(1) b(1) by (metis append_Cons append_Nil append_assoc)
  then show "has_token s"
    using \<open>is_digit (last a)\<close> b(2) unfolding has_token_iff by blast
qed

lemma starts_token_append: "starts_token u \<Longrightarrow> starts_token (u @ v)"
proof -
  assume "starts_token u"
  then obtain d1 b r where "u = d1 @ CHR ''/'' # b # r" "digits d1" "is_digit b"
    by (rule starts_token_elim)
  then show ?thesis using starts_token_intro [of d1 b "r @ v"] by simp
qed

lemma first_token_exists:
  assumes "has_token s"
  shows "\<exists>pre d1 d2 rest. s = pre @ d1 @ ''/'' @ d2 @ rest \<and> digits d1 \<and> digits d2 \<and>
           (pre = [] \<or> \<not> is_digit (last pre)) \<and> \<not> has_token (pre @ d1) \<and>
           (rest = [] \<or> \<not> is_digit (hd rest))"
  using assms
proof (induction s)
  case Nil
  then show ?case by simp
next
  case (Cons c cs)
  show ?case
  proof (cases "starts_token (c # cs)")
    case True
    then obtain d1 b r where e: "c # cs = d1 @ CHR ''/'' # b # r" "digits d1" "is_digit b"
      by (rule starts_token_elim)
    define d2 where "d2 = takeWhile is_digit (b # r)"
    define rest where "rest = dropWhile is_digit (b # r)"
    have "b # r = d2 @ rest" by (simp add: d2_def rest_def)
    then have "c # cs = [] @ d1 @ ''/'' @ d2 @ rest" using e(1) by simp
    moreover have "digits d2"
      using e(3) by (auto simp: d2_def digits_def list_all_iff dest: set_takeWhileD)
    moreover have "rest = [] \<or> \<not> is_digit (hd rest)"
      unfolding rest_def using hd_dropWhile [of is_digit "b # r"] by blast
    moreover have "\<not> has_token ([] @ d1)"
      using e(2) by (simp add: no_token_digits digits_def)
    ultimately show ?thesis using e(2) by blast
  next
    case False
    then have "has_token cs" using Cons.prems by (simp add: has_token_Cons)
    then obtain pre d1 d2 rest where ih: "cs = pre @ d1 @ ''/'' @ d2 @ rest" "digits d1" "digits d2"
      "pre = [] \<or> \<not> is_digit (last pre)" "\<not> has_token (pre @ d1)"
      "rest = [] \<or> \<not> is_digit (hd rest)"
      using Cons.IH by blast
    obtain y d2' where d2: "d2 = y # d2'" "is_digit y"
      using ih(3) by (cases d2) (auto simp: digits_def)
    have e: "c # cs = (c # pre) @ d1 @ ''/'' @ d2 @ rest" using ih(1) by simp
    have "\<not> is_digit (last (c # pre))"
    proof (cases pre)
      case Nil
      show ?thesis
      proof
        assume "is_digit (last (c # pre))"
        then have "digits (c # d1)" using Nil ih(2) by (simp add: digits_def)
        then have "starts_token ((c # d1) @ CHR ''/'' # y # (d2' @ rest))"
          using d2(2) by (rule starts_token_intro)
        then show False using False e Nil d2(1) by simp
      qed
    next
      case (Cons x p)
      then show ?thesis using ih(4) by simp
    qed
    moreover have "\<not> has_token ((c # pre) @ d1)"
    proof
      assume "has_token ((c # pre) @ d1)"
      then have "starts_token (c # pre @ d1)" using ih(5) by (simp add: has_token_Cons)
      then have "starts_token ((c # pre @ d1) @ ''/'' @ d2 @ rest)" by (rule starts_token_append)
      then show False using False e by simp
    qed
    ultimately show ?thesis using e ih(2,3,6) by blast
  qed
qed

lemma strip_inside: "\<exists>a b. l = a @ strip l @ b"
proof -
  define m where "m = dropWhile is_space l"
  have "l = takeWhile is_space l @ m" by (simp add: m_def)
  moreover have "rev m = takeWhile is_space (rev m) @ dropWhile is_space (rev m)" by simp
  then have "m = rev (dropWhile is_space (rev m)) @ rev (takeWhile is_space (rev m))"
    by (metis rev_append rev_rev_ident)
  ultimately have "l = takeWhile is_space l @ strip l @ rev (takeWhile is_space (rev m))"
    by (simp add: strip_def m_def)
  then show ?thesis by blast
qed

lemma has_token_strip: "has_token (strip l) = has_token l"
proof
  assume "has_token (strip l)"
  then show "has_token l"
    using strip_inside [of l] has_token_append by metis
next
  assume "has_token l"
  then obtain u a b r where e: "l = u @ [a, CHR ''/'', b] @ r" and d: "is_digit a" "is_digit b"
    by (auto simp: has_token_iff)
  have "\<not> is_space a" "\<not> is_space b"
    using d by (auto simp: char_class_defs)
  then obtain pre' post' where "strip l = pre' @ [a, CHR ''/'', b] @ post'"
    using strip_keeps [of "[a, CHR ''/'', b]" u r] e by auto
  then show "has_token (strip l)"
    using d unfolding has_token_iff by auto
qed

section \<open>Grade lines\<close>

lemma parse_line_token:
  assumes "line = strip l" "line \<noteq> []" "\<not> list_ex (\<lambda>header. contains line header) headers"
    and "line = pre @ d1 @ ''/'' @ d2 @ rest" "digits d1" "digits d2"
    and "pre = [] \<or> \<not> is_digit (last pre)" "\<not> has_token (pre @ d1)"
    and "rest = [] \<or> \<not> is_digit (hd rest)"
  shows "parse_line l =
           Some \<lparr>Section = ''All Grades'',
                 Item = strip (replace line (d1 @ ''/'' @ d2 @ takeWhile is_space rest
                                              @ percent_at (dropWhile is_space rest)) []),
                 Achieved = real (int_of_digits d1), Total = real (int_of_digits d2)\<rparr>"
proof -
  have "re_search grade_regex line =
          Some \<lparr>group0 = d1 @ ''/'' @ d2 @ takeWhile is_space rest
                           @ percent_at (dropWhile is_space rest),
                groups = [(2, d2), (1, d1)]\<rparr>"
    unfolding re_search_grade assms(4)
    by (rule grade_search_token [OF assms(5,6,7,8,9)])
  then show ?thesis
    using assms(1,2,3) by (simp add: parse_line_def Let_def group_def float_def)
qed

lemma parse_line_no_token:
  assumes "\<not> has_token (strip l)"
  shows "parse_line l = None"
proof -
  have "grade_search (strip l) = None"
    using assms by (simp add: grade_search_None)
  then show ?thesis
    by (simp add: parse_line_def Let_def re_search_grade)
qed

text \<open>
  Claim C2. Take a line that, once trimmed, is not empty and holds no header substring.
  If it has an integer-slash-integer token, the loop body appends one entry: its achieved
  and total are the two integers of the first token of the line (the token is
  \<open>d1/d2\<close>, whole runs of digits, with no token before its slash), and its section is
  \<^verbatim>\<open>All Grades\<close>. A line with no token, of any kind, appends nothing. The data frame holds one
  row for each appended entry, in order, with the weight 100. The achieved and total
  are the integers as real numbers.
\<close>

theorem grade_line_record:
  "(strip l \<noteq> [] \<and> \<not> list_ex (\<lambda>header. contains (strip l) header) headers \<and> has_token l
      \<longrightarrow>
        (\<exists>pre d1 d2 rest e.
           strip l = pre @ d1 @ ''/'' @ d2 @ rest \<and> digits d1 \<and> digits d2 \<and>
           (pre = [] \<or> \<not> is_digit (last pre)) \<and> \<not> has_token (pre @ d1) \<and>
           (rest = [] \<or> \<not> is_digit (hd rest)) \<and>
           parse_line l = Some e \<and> Section e = ''All Grades'' \<and>
           Achieved e = real (int_of_digits d1) \<and> Total e = real (int_of_digits d2)))
   \<and> (\<not> has_token l \<longrightarrow> parse_line l = None)
   \<and> extract_assignments_and_grades text =
         map (with_weight (Num 100)) (List.map_filter parse_line (splitlines text))"
proof (intro conjI impI)
  assume a: "strip l \<noteq> [] \<and> \<not> list_ex (\<lambda>header. contains (strip l) header) headers \<and> has_token l"
  then have "has_token (strip l)" by (simp add: has_token_strip)
  then obtain pre d1 d2 rest where t: "strip l = pre @ d1 @ ''/'' @ d2 @ rest" "digits d1" "digits d2"
    "pre = [] \<or> \<not> is_digit (last pre)" "\<not> has_token (pre @ d1)"
    "rest = [] \<or> \<not> is_digit (hd rest)"
    using first_token_exists by blast
  define e where "e = \<lparr>Section = ''All Grades'',
                 Item = strip (replace (strip l) (d1 @ ''/'' @ d2 @ takeWhile is_space rest
                                              @ percent_at (dropWhile is_space rest)) []),
                 Achieved = real (int_of_digits d1), Total = real (int_of_digits d2)\<rparr>"
  have "parse_line l = Some e"
    unfolding e_def using a by (intro parse_line_token [OF refl _ _ t]) simp_all
  moreover have "Section e = ''All Grades''" "Achieved e = real (int_of_digits d1)"
    "Total e = real (int_of_digits d2)"
    by (simp_all add: e_def)
  ultimately show "\<exists>pre d1 d2 rest e.
               strip l = pre @ d1 @ ''/'' @ d2 @ rest \<and> digits d1 \<and> digits d2 \<and>
               (pre = [] \<or> \<not> is_digit (last pre)) \<and> \<not> has_token (pre @ d1) \<and>
               (rest = [] \<or> \<not> is_digit (hd rest)) \<and>
               parse_line l = Some e \<and> Section e = ''All Grades'' \<and>
               Achieved e = real (int_of_digits d1) \<and> Total e = real (int_of_digits d2)"
    using t by blast
next
  assume "\<not> has_token l"
  then show "parse_line l = None"
    by (simp add: parse_line_no_token has_token_strip)
next
  show "extract_assignments_and_grades text =
          map (with_weight (Num 100)) (List.map_filter parse_line (splitlines text))"
    by (rule extract_map_filter)
qed

theorem grade_line_record_witness:
  "(\<exists>e. parse_line ''  Quiz 1 9/10 90%'' = Some e \<and> Section e = ''All Grades'')
   \<and> parse_line ''Total 90 %'' = None"
proof -
  have a: "strip ''  Quiz 1 9/10 90%'' = ''Quiz 1 9/10 90%''"
    by (simp add: strip_def char_class_defs)
  have h: "\<not> list_ex (\<lambda>header. contains ''Quiz 1 9/10 90%'' header) headers"
    by (simp add: headers_def)
  have t: "has_token ''  Quiz 1 9/10 90%''" "\<not> has_token ''Total 90 %''"
    by (simp_all add: char_class_defs)
  have "\<exists>e. parse_line ''  Quiz 1 9/10 90%'' = Some e \<and> Section e = ''All Grades''"
    using grade_line_record [of "''  Quiz 1 9/10 90%''"] a h t(1) by auto
  moreover have "parse_line ''Total 90 %'' = None"
    using grade_line_record [of "''Total 90 %''"] t(2) by blast
  ultimately show ?thesis by simp
qed

text \<open>
  Claim C10. A line with several tokens still gives one entry. Let the trimmed line be
  \<open>pre @ d1 / d2 @ rest\<close> with \<open>d1/d2\<close> its first token; \<open>rest\<close> can hold any
  number of further tokens. The matched text is the token with the white space after it
  and a percentage (digits and a percent sign) if one follows. The entry takes achieved
  and total from \<open>d1\<close> and \<open>d2\<close>, and its item is the line with every occurrence of
  the matched text removed, then trimmed.
\<close>

theorem leftmost_token_record:
  assumes "line = strip l" "line \<noteq> []" "\<not> list_ex (\<lambda>header. contains line header) headers"
    and "line = pre @ d1 @ ''/'' @ d2 @ rest" "digits d1" "digits d2"
    and "pre = [] \<or> \<not> is_digit (last pre)" "\<not> has_token (pre @ d1)"
    and "rest = [] \<or> \<not> is_digit (hd rest)"
    and "matched = d1 @ ''/'' @ d2 @ takeWhile is_space rest @ percent_at (dropWhile is_space rest)"
  shows "parse_line l =
           Some \<lparr>Section = ''All Grades'', Item = strip (replace line matched []),
                 Achieved = real (int_of_digits d1), Total = real (int_of_digits d2)\<rparr>
         \<and> parse_lines (l # ls) extracted_data =
             parse_lines ls (extracted_data @
               [\<lparr>Section = ''All Grades'', Item = strip (replace line matched []),
                 Achieved = real (int_of_digits d1), Total = real (int_of_digits d2)\<rparr>])"
proof -
  have "parse_line l =
           Some \<lparr>Section = ''All Grades'', Item = strip (replace line matched []),
                 Achieved = real (int_of_digits d1), Total = real (int_of_digits d2)\<rparr>"
    unfolding assms(10) by (rule parse_line_token [OF assms(1-9)])
  then show ?thesis by simp
qed

theorem leftmost_token_record_witness:
  "parse_line ''HW 5/5 and 5/5 again 4/5'' =
     Some \<lparr>Section = ''All Grades'', Item = ''HW and again 4/5'', Achieved = 5, Total = 5\<rparr>"
proof -
  have a: "''HW 5/5 and 5/5 again 4/5'' = strip ''HW 5/5 and 5/5 again 4/5''"
    by (simp add: strip_def char_class_defs)
  have h: "\<not> list_ex (\<lambda>header. contains ''HW 5/5 and 5/5 again 4/5'' header) headers"
    by (simp add: headers_def)
  have d: "''HW 5/5 and 5/5 again 4/5'' = ''HW '' @ ''5'' @ ''/'' @ ''5'' @ '' and 5/5 again 4/5''"
    by simp
  have g: "digits ''5''" "\<not> is_digit (last ''HW '')" "\<not> has_token (''HW '' @ ''5'')"
    "\<not> is_digit (hd '' and 5/5 again 4/5'')"
    by (simp_all add: digits_def char_class_defs)
  have m: "''5/5 '' = ''5'' @ ''/'' @ ''5'' @ takeWhile is_space '' and 5/5 again 4/5''
                   @ percent_at (dropWhile is_space '' and 5/5 again 4/5'')"
    by (simp add: percent_at_def char_class_defs)
  have r: "strip (replace ''HW 5/5 and 5/5 again 4/5'' ''5/5 '' []) = ''HW and again 4/5''"
    by (simp add: strip_def char_class_defs)
  have i: "int_of_digits ''5'' = 5"
    by (simp add: int_of_digits_def digit_val_def code_def)
  show ?thesis
    using leftmost_token_record [OF a _ h d g(1) g(1) _ g(3) _ m] g(2,4) r i
    by simp
qed

end
